theory Spec2Isabelle
  imports Main "HOL-Library.Multiset"
begin

section \<open>Strings\<close>

text \<open>
  A Python \<open>str\<close> is a sequence of code points. The model uses \<open>string\<close>, a list of
  \<open>char\<close>, and reads each \<open>char\<close> as the code point of the same number, so it covers the
  strings whose code points are below 256. \<open>str.isspace\<close>, \<open>str.strip\<close> and
  \<open>str.lower\<close> are written out for that range.
\<close>

definition is_space :: "char \<Rightarrow> bool" where
  "is_space c =
     (let n = (of_char c :: nat)
      in (9 \<le> n \<and> n \<le> 13) \<or> (28 \<le> n \<and> n \<le> 32) \<or> n = 133 \<or> n = 160)"

definition strip :: "string \<Rightarrow> string" where
  "strip s = rev (dropWhile is_space (rev (dropWhile is_space s)))"

definition lower_char :: "char \<Rightarrow> char" where
  "lower_char c =
     (let n = (of_char c :: nat)
      in if (65 \<le> n \<and> n \<le> 90) \<or> (192 \<le> n \<and> n \<le> 222 \<and> n \<noteq> 215)
         then char_of (n + 32) else c)"

definition lower :: "string \<Rightarrow> string" where
  "lower s = map lower_char s"

definition endswith_slash :: "string \<Rightarrow> bool" where
  "endswith_slash u = (u \<noteq> [] \<and> last u = CHR ''/'')"

fun contains :: "string \<Rightarrow> string \<Rightarrow> bool" where
  "contains sub [] = (sub = [])"
| "contains sub (c # cs) = (take (length sub) (c # cs) = sub \<or> contains sub cs)"

definition count_slash :: "string \<Rightarrow> nat" where
  "count_slash u = length (filter (\<lambda>c. c = CHR ''/'') u)"

text \<open>\<open>str.split("\n")\<close>: the pieces between line feeds, at least one piece.\<close>

fun split_nl :: "string \<Rightarrow> string list" where
  "split_nl [] = [[]]"
| "split_nl (c # cs) =
     (if c = CHR 0x0A then [] # split_nl cs
      else (case split_nl cs of [] \<Rightarrow> [[c]] | l # ls \<Rightarrow> (c # l) # ls))"

section \<open>Configuration and helper functions\<close>

text \<open>
  The check boxes read by \<open>normalize_url\<close> and by the parser loop. The encoding, the
  change frequency and the priority only reach the serialiser.
\<close>

record config =
  normalize_trailing_slash :: bool
  lower_case_urls :: bool
  dedupe_existing :: bool

text \<open>The test that guards \<open>u = u[:-1]\<close> in \<open>normalize_url\<close>.\<close>

definition trim_cond :: "string \<Rightarrow> bool" where
  "trim_cond u = (endswith_slash u \<and> contains ''://'' u \<and> count_slash u > 2)"

definition normalize_url :: "config \<Rightarrow> string \<Rightarrow> string" where
  "normalize_url cfg u0 =
     (let u1 = strip u0;
          u2 = (if lower_case_urls cfg then lower u1 else u1)
      in if normalize_trailing_slash cfg \<and> length u2 > 1
         then (if trim_cond u2 then butlast u2 else u2)
         else u2)"

definition clean_lines :: "config \<Rightarrow> string \<Rightarrow> string list" where
  "clean_lines cfg raw =
     (if raw = [] then []
      else map (normalize_url cfg) (filter (\<lambda>line. strip line \<noteq> []) (split_nl (strip raw))))"

section \<open>The uploaded document\<close>

text \<open>
  An element of the tree that \<open>ET.parse\<close> returns: its expanded tag, its text
  (\<open>None\<close> when the element has none) and its children in document order.
\<close>

datatype elem = Elem (tag: string) (etext: "string option") (children: "elem list")

definition ns_uri :: string where
  "ns_uri = ''http://www.sitemaps.org/schemas/sitemap/0.9''"

definition qname :: "string \<Rightarrow> string" where
  "qname local = ''{'' @ ns_uri @ ''}'' @ local"

definition findall :: "string \<Rightarrow> elem \<Rightarrow> elem list" where
  "findall t e = filter (\<lambda>c. tag c = t) (children e)"

definition find_child :: "string \<Rightarrow> elem \<Rightarrow> elem option" where
  "find_child t e = List.find (\<lambda>c. tag c = t) (children e)"

text \<open>Python's truth test on an element text: \<open>None\<close> and the empty string are false.\<close>

fun truthy :: "string option \<Rightarrow> bool" where
  "truthy None = False"
| "truthy (Some s) = (s \<noteq> [])"

section \<open>Collecting the existing entries\<close>

type_synonym entry = "string \<times> string option"

record parse_state =
  existing_urls :: "entry list"
  seen :: "string set"

definition lastmod_of :: "elem \<Rightarrow> string option" where
  "lastmod_of url_elem =
     (case find_child (qname ''lastmod'') url_elem of
        None \<Rightarrow> None
      | Some lastmod_elem \<Rightarrow>
          (if truthy (etext lastmod_elem) then Some (strip (the (etext lastmod_elem))) else None))"

text \<open>One pass of the loop over \<open>root.findall('ns:url', ns)\<close>.\<close>

definition parse_step :: "config \<Rightarrow> string set \<Rightarrow> parse_state \<Rightarrow> elem \<Rightarrow> parse_state" where
  "parse_step cfg exclude_urls st url_elem =
     (case find_child (qname ''loc'') url_elem of
        None \<Rightarrow> st
      | Some loc_elem \<Rightarrow>
          (if \<not> truthy (etext loc_elem) then st
           else
             let loc_text = normalize_url cfg (the (etext loc_elem)) in
             if loc_text \<in> exclude_urls then st
             else
               let lastmod = lastmod_of url_elem in
               if dedupe_existing cfg then
                 (if loc_text \<in> seen st then st
                  else st\<lparr>existing_urls := existing_urls st @ [(loc_text, lastmod)],
                          seen := insert loc_text (seen st)\<rparr>)
               else st\<lparr>existing_urls := existing_urls st @ [(loc_text, lastmod)]\<rparr>))"

definition parse_loop :: "config \<Rightarrow> string set \<Rightarrow> elem list \<Rightarrow> parse_state" where
  "parse_loop cfg exclude_urls url_elems =
     foldl (parse_step cfg exclude_urls) \<lparr>existing_urls = [], seen = {}\<rparr> url_elems"

section \<open>Handling the additions\<close>

record merge_state =
  final_urls :: "entry list"
  duplicates :: "string list"
  new_seen :: "string set"

definition add_step :: "string set \<Rightarrow> string \<Rightarrow> merge_state \<Rightarrow> string \<Rightarrow> merge_state" where
  "add_step existing_set add_lastmod_str st new_url =
     (if new_url = [] then st
      else if new_url \<in> existing_set \<or> new_url \<in> new_seen st
        then st\<lparr>duplicates := duplicates st @ [new_url]\<rparr>
        else st\<lparr>final_urls := final_urls st @ [(new_url, Some add_lastmod_str)],
                new_seen := insert new_url (new_seen st)\<rparr>)"

definition add_loop :: "entry list \<Rightarrow> string list \<Rightarrow> string \<Rightarrow> merge_state" where
  "add_loop existing add_urls add_lastmod_str =
     foldl (add_step (set (map fst existing)) add_lastmod_str)
       \<lparr>final_urls = existing, duplicates = [], new_seen = {}\<rparr> add_urls"

section \<open>The run behind the button\<close>

text \<open>
  What \<open>ET.parse\<close> does with the uploaded bytes is the library's: it raises
  \<open>ParseError\<close>, raises something else, or returns the tree with its root.
\<close>

datatype parse_result = Raises_ParseError | Raises_Other | Tree elem

record inputs =
  uploaded_file :: "parse_result option"
  exclude_input :: string
  add_input :: string
  add_lastmod_str :: string

text \<open>
  What the user gets: the warning of the missing file (the script stops), one of the two
  error reports, or the success report with the final entries handed to the serialiser
  and the download button, and the duplicates.
\<close>

datatype outcome =
    Warning_No_File
  | Error_Parse
  | Error_Unexpected
  | Generated "entry list" "string list"

definition pipeline :: "config \<Rightarrow> inputs \<Rightarrow> elem \<Rightarrow> merge_state" where
  "pipeline cfg inp root =
     (let exclude_urls = set (clean_lines cfg (exclude_input inp));
          add_urls = clean_lines cfg (add_input inp);
          existing = existing_urls (parse_loop cfg exclude_urls (findall (qname ''url'') root))
      in add_loop existing add_urls (add_lastmod_str inp))"

definition generate :: "config \<Rightarrow> inputs \<Rightarrow> outcome" where
  "generate cfg inp =
     (case uploaded_file inp of
        None \<Rightarrow> Warning_No_File
      | Some Raises_ParseError \<Rightarrow> Error_Parse
      | Some Raises_Other \<Rightarrow> Error_Unexpected
      | Some (Tree root) \<Rightarrow>
          (let st = pipeline cfg inp root in Generated (final_urls st) (duplicates st)))"

section \<open>Definitions used to state the properties\<close>

text \<open>
  The candidate entry of one \<open>url\<close> element: the normalised text of its first \<open>loc\<close>
  child with the \<open>lastmod\<close> read at that element, or nothing when the child is missing
  or its text is empty.
\<close>

definition candidate :: "config \<Rightarrow> elem \<Rightarrow> entry option" where
  "candidate cfg url_elem =
     (case find_child (qname ''loc'') url_elem of
        None \<Rightarrow> None
      | Some loc_elem \<Rightarrow>
          (if truthy (etext loc_elem)
           then Some (normalize_url cfg (the (etext loc_elem)), lastmod_of url_elem)
           else None))"

text \<open>The candidates that the exclusion set lets through, in document order.\<close>

definition survivors :: "config \<Rightarrow> string set \<Rightarrow> elem list \<Rightarrow> entry list" where
  "survivors cfg exclude_urls url_elems =
     filter (\<lambda>e. fst e \<notin> exclude_urls) (List.map_filter (candidate cfg) url_elems)"

text \<open>First occurrence of each location, every later entry of the same location removed.\<close>

fun keep_first :: "entry list \<Rightarrow> entry list" where
  "keep_first [] = []"
| "keep_first (e # es) = e # keep_first (filter (\<lambda>e'. fst e' \<noteq> fst e) es)"

text \<open>
  The reconciler as the specification words it, by position in the addition list: the
  additions accepted among the first \<open>n\<close>, and those rejected among the first \<open>n\<close>. An
  addition is rejected when its location is in the existing-location set or was accepted
  earlier in the pass.
\<close>

fun accepted_upto :: "string set \<Rightarrow> string list \<Rightarrow> nat \<Rightarrow> string list" where
  "accepted_upto E adds 0 = []"
| "accepted_upto E adds (Suc n) =
     (if adds ! n \<in> E \<or> adds ! n \<in> set (accepted_upto E adds n)
      then accepted_upto E adds n
      else accepted_upto E adds n @ [adds ! n])"

fun rejected_upto :: "string set \<Rightarrow> string list \<Rightarrow> nat \<Rightarrow> string list" where
  "rejected_upto E adds 0 = []"
| "rejected_upto E adds (Suc n) =
     (if adds ! n \<in> E \<or> adds ! n \<in> set (accepted_upto E adds n)
      then rejected_upto E adds n @ [adds ! n]
      else rejected_upto E adds n)"

text \<open>
  The invariant of the addition loop after the additions \<open>xs\<close>, with \<open>acc\<close> the
  locations accepted so far.
\<close>

definition add_inv ::
  "entry list \<Rightarrow> string \<Rightarrow> string list \<Rightarrow> merge_state \<Rightarrow> string list \<Rightarrow> bool" where
  "add_inv existing d xs st acc =
     (final_urls st = existing @ map (\<lambda>l. (l, Some d)) acc \<and>
      new_seen st = set acc \<and>
      distinct acc \<and>
      set acc \<inter> set (map fst existing) = {} \<and>
      set acc = set xs - set (map fst existing) - {[]} \<and>
      mset acc + mset (duplicates st) = mset (filter (\<lambda>x. x \<noteq> []) xs))"




section \<open>Example documents\<close>

text \<open>
  \<open><url><loc>l</loc><lastmod>m</lastmod></url>\<close> in the sitemap namespace (no
  \<open>lastmod\<close> child when \<open>m\<close> is \<open>None\<close>), and a \<open>urlset\<close> of such elements.
\<close>

definition mk_url :: "string \<Rightarrow> string option \<Rightarrow> elem" where
  "mk_url l m =
     Elem (qname ''url'') None
       (Elem (qname ''loc'') (Some l) [] #
        (case m of None \<Rightarrow> [] | Some t \<Rightarrow> [Elem (qname ''lastmod'') (Some t) []]))"

definition mk_urlset :: "elem list \<Rightarrow> elem" where
  "mk_urlset us = Elem (qname ''urlset'') None us"

definition upload :: "elem \<Rightarrow> string \<Rightarrow> string \<Rightarrow> string \<Rightarrow> inputs" where
  "upload doc excl adds d =
     \<lparr>uploaded_file = Some (Tree doc), exclude_input = excl, add_input = adds,
        add_lastmod_str = d\<rparr>"

definition doc_twice :: elem where
  "doc_twice = mk_urlset [mk_url ''https://ex.com/x'' None, mk_url ''https://ex.com/x'' None]"

definition doc_mixed :: elem where
  "doc_mixed = mk_urlset [mk_url ''x'' (Some ''2024-01-01''), mk_url ''x'' None, mk_url ''y'' None]"

definition doc_a :: elem where
  "doc_a = mk_urlset [mk_url ''https://ex.com/a'' (Some ''2024-01-01'')]"

definition doc_padded :: elem where
  "doc_padded = mk_urlset [mk_url ''https://ex.com/a'' (Some '' 2024-01-01 '')]"


definition cfg_default :: config where
  "cfg_default = \<lparr>normalize_trailing_slash = False, lower_case_urls = False, dedupe_existing = True\<rparr>"

definition cfg_trim :: config where
  "cfg_trim = \<lparr>normalize_trailing_slash = True, lower_case_urls = False, dedupe_existing = True\<rparr>"

definition cfg_keep_dups :: config where
  "cfg_keep_dups = \<lparr>normalize_trailing_slash = False, lower_case_urls = False, dedupe_existing = False\<rparr>"

section \<open>Evaluating the helpers\<close>

lemma qname_eq [simp]: "qname a = qname b \<longleftrightarrow> a = b"
  by (simp add: qname_def)

lemma is_space_simps [simp]:
  "is_space (CHR '' '')" "is_space (CHR 0x0A)" "\<not> is_space (CHR ''/'')"
  "\<not> is_space (CHR ''h'')" "\<not> is_space (CHR ''a'')" "\<not> is_space (CHR ''b'')"
  "\<not> is_space (CHR ''c'')" "\<not> is_space (CHR ''1'')" "\<not> is_space (CHR ''2'')"
  "\<not> is_space (CHR ''x'')" "\<not> is_space (CHR ''y'')" "\<not> is_space (CHR ''e'')"
  by (simp_all add: is_space_def)

lemmas eval_normalize =
  normalize_url_def strip_def trim_cond_def endswith_slash_def count_slash_def

lemmas eval_parse =
  parse_loop_def parse_step_def findall_def find_child_def lastmod_of_def mk_url_def mk_urlset_def
  Let_def

lemmas eval_add = add_loop_def add_step_def

lemmas eval_run = generate_def pipeline_def clean_lines_def upload_def

section \<open>The trailing-slash rule\<close>

text \<open>
  C4. The claim: with \<open>trim_trailing_slash\<close> on, one trailing slash is stripped unless
  the string is a bare domain root; \<open>https://ex.com/\<close> stays as it is and
  \<open>https://ex.com/page/\<close> becomes \<open>https://ex.com/page\<close>. The source's comment says
  the same of the root. The test of the source asks for more than two slashes, and the
  root \<open>https://ex.com/\<close> has three: the code strips its slash as well.
\<close>

theorem normalize_url_domain_root_trimmed:
  "normalize_url cfg_trim ''https://ex.com/'' = ''https://ex.com'' \<and>
   normalize_url cfg_trim ''https://ex.com/page/'' = ''https://ex.com/page'' \<and>
   trim_cond ''https://ex.com/'' \<and> count_slash ''https://ex.com/'' = 3"
  by (simp add: eval_normalize cfg_trim_def)

section \<open>Entries with an empty location\<close>

text \<open>
  C8. The claim: every entry of the parser output has a non-empty location. The source
  tests the text of \<open>loc\<close> before it normalises it, so a \<open>loc\<close> of white space only
  passes the test and is normalised to the empty string; the entry is kept.
\<close>

theorem whitespace_loc_gives_empty_location:
  "existing_urls (parse_loop cfg_default {} (findall (qname ''url'') (mk_urlset [mk_url ''  '' None])))
     = [([], None)] \<and>
   generate cfg_default
     \<lparr>uploaded_file = Some (Tree (mk_urlset [mk_url ''  '' None])),
        exclude_input = [], add_input = [], add_lastmod_str = ''2025-06-01''\<rparr>
     = Generated [([], None)] []"
  by (simp add: eval_parse eval_normalize eval_add generate_def pipeline_def clean_lines_def
      cfg_default_def)

section \<open>The addition loop\<close>

lemma add_inv_init:
  "add_inv existing d [] \<lparr>final_urls = existing, duplicates = [], new_seen = {}\<rparr> []"
  by (simp add: add_inv_def)

lemma add_inv_step:
  assumes "add_inv existing d xs st acc"
  shows "\<exists>acc'. add_inv existing d (xs @ [x]) (add_step (set (map fst existing)) d st x) acc'"
proof (cases "x = []")
  case True
  with assms have "add_inv existing d (xs @ [x]) (add_step (set (map fst existing)) d st x) acc"
    by (auto simp: add_inv_def add_step_def)
  then show ?thesis ..
next
  case False
  show ?thesis
  proof (cases "x \<in> set (map fst existing) \<or> x \<in> new_seen st")
    case True
    with assms False
    have "add_inv existing d (xs @ [x]) (add_step (set (map fst existing)) d st x) acc"
      by (auto simp: add_inv_def add_step_def)
    then show ?thesis ..
  next
    case fresh: False
    with assms False
    have "add_inv existing d (xs @ [x]) (add_step (set (map fst existing)) d st x) (acc @ [x])"
      by (auto simp: add_inv_def add_step_def)
    then show ?thesis ..
  qed
qed

lemma add_loop_inv: "\<exists>acc. add_inv existing d xs (add_loop existing xs d) acc"
proof (induction xs rule: rev_induct)
  case Nil
  show ?case using add_inv_init by (auto simp: add_loop_def)
next
  case (snoc x xs)
  then obtain acc where "add_inv existing d xs (add_loop existing xs d) acc" ..
  from add_inv_step [OF this, of x] show ?case by (simp add: add_loop_def)
qed

text \<open>The state of the loop after the first \<open>n\<close> additions, none of them empty.\<close>

lemma add_loop_upto:
  assumes "[] \<notin> set adds" and "n \<le> length adds"
  shows "foldl (add_step E d) \<lparr>final_urls = existing, duplicates = [], new_seen = {}\<rparr> (take n adds)
         = \<lparr>final_urls = existing @ map (\<lambda>l. (l, Some d)) (accepted_upto E adds n),
            duplicates = rejected_upto E adds n,
            new_seen = set (accepted_upto E adds n)\<rparr>"
  using assms(2)
proof (induction n)
  case 0
  show ?case by simp
next
  case (Suc n)
  then have n: "n < length adds" by simp
  with assms(1) have ne: "adds ! n \<noteq> []" by (metis nth_mem)
  from Suc have IH:
    "foldl (add_step E d) \<lparr>final_urls = existing, duplicates = [], new_seen = {}\<rparr> (take n adds)
       = \<lparr>final_urls = existing @ map (\<lambda>l. (l, Some d)) (accepted_upto E adds n),
          duplicates = rejected_upto E adds n,
          new_seen = set (accepted_upto E adds n)\<rparr>"
    by simp
  have "foldl (add_step E d) \<lparr>final_urls = existing, duplicates = [], new_seen = {}\<rparr>
          (take (Suc n) adds)
        = add_step E d
            \<lparr>final_urls = existing @ map (\<lambda>l. (l, Some d)) (accepted_upto E adds n),
               duplicates = rejected_upto E adds n,
               new_seen = set (accepted_upto E adds n)\<rparr> (adds ! n)"
    by (simp add: take_Suc_conv_app_nth [OF n] IH)
  also have "\<dots> = \<lparr>final_urls = existing @ map (\<lambda>l. (l, Some d)) (accepted_upto E adds (Suc n)),
            duplicates = rejected_upto E adds (Suc n),
            new_seen = set (accepted_upto E adds (Suc n))\<rparr>"
    by (simp add: add_step_def ne)
  finally show ?case .
qed

text \<open>
  C2. For every existing-entry list, every addition list as the caller hands it over
  (blank lines filtered, so no empty string) and every date: an addition whose location
  is in the existing-location set or was accepted earlier in the pass goes to
  \<open>duplicates\<close> and is skipped, every other addition is appended with the configured
  date, and the final sequence is the existing entries, unchanged and in order, followed
  by the accepted additions in input order.
\<close>

theorem reconcile_as_specified:
  assumes "[] \<notin> set add_urls"
  shows "final_urls (add_loop existing add_urls d) =
           existing @ map (\<lambda>l. (l, Some d))
             (accepted_upto (set (map fst existing)) add_urls (length add_urls)) \<and>
         duplicates (add_loop existing add_urls d) =
           rejected_upto (set (map fst existing)) add_urls (length add_urls)"
  using add_loop_upto [OF assms, of "length add_urls" "set (map fst existing)" d existing]
  by (simp add: add_loop_def)

theorem reconcile_as_specified_witness:
  "[] \<notin> set [''a'', ''c'', ''y'', ''y''] \<and>
   final_urls (add_loop [(''a'', Some ''2024-01-01'')] [''a'', ''c'', ''y'', ''y''] ''2025-06-01'') =
     [(''a'', Some ''2024-01-01''), (''c'', Some ''2025-06-01''), (''y'', Some ''2025-06-01'')] \<and>
   duplicates (add_loop [(''a'', Some ''2024-01-01'')] [''a'', ''c'', ''y'', ''y''] ''2025-06-01'') =
     [''a'', ''y'']"
  using reconcile_as_specified
    [of "[''a'', ''c'', ''y'', ''y'']" "[(''a'', Some ''2024-01-01'')]" "''2025-06-01''"]
  by (simp add: numeral_eq_Suc)

section \<open>The cleaned lines\<close>

lemma normalize_url_nonempty: "strip u \<noteq> [] \<Longrightarrow> normalize_url cfg u \<noteq> []"
proof -
  have bl: "butlast s \<noteq> []" if "1 < length s" for s :: string
  proof -
    from that have "0 < length (butlast s)" by simp
    then show ?thesis by blast
  qed
  assume "strip u \<noteq> []"
  then show ?thesis
    using bl [of "strip u"] bl [of "lower (strip u)"]
    by (auto simp: normalize_url_def Let_def lower_def)
qed

lemma clean_lines_nonempty: "[] \<notin> set (clean_lines cfg raw)"
  by (auto simp: clean_lines_def dest: normalize_url_nonempty [of _ cfg])

text \<open>
  C10. The cleaned addition list holds non-empty strings only, and each of its elements
  ends in exactly one place, the additions appended to the final sequence or the
  duplicates: the additions are, as a multiset, the appended locations plus the
  duplicates, and the final count is the existing count plus the addition count minus
  the duplicates count.
\<close>

theorem addition_accounting:
  "(\<forall>x \<in> set (clean_lines cfg raw). x \<noteq> []) \<and>
   take (length existing) (final_urls (add_loop existing (clean_lines cfg raw) d)) = existing \<and>
   mset (clean_lines cfg raw) =
     mset (map fst (drop (length existing) (final_urls (add_loop existing (clean_lines cfg raw) d)))) +
     mset (duplicates (add_loop existing (clean_lines cfg raw) d)) \<and>
   length (final_urls (add_loop existing (clean_lines cfg raw) d)) =
     length existing + length (clean_lines cfg raw)
       - length (duplicates (add_loop existing (clean_lines cfg raw) d)) \<and>
   length (duplicates (add_loop existing (clean_lines cfg raw) d)) \<le> length (clean_lines cfg raw)"
proof -
  let ?adds = "clean_lines cfg raw"
  let ?st = "add_loop existing ?adds d"
  have ne: "[] \<notin> set ?adds" by (rule clean_lines_nonempty)
  then have flt: "filter (\<lambda>x. x \<noteq> []) ?adds = ?adds"
    by (auto intro: filter_True)
  obtain acc where inv: "add_inv existing d ?adds ?st acc"
    using add_loop_inv by blast
  from inv have fin: "final_urls ?st = existing @ map (\<lambda>l. (l, Some d)) acc"
    and ms: "mset acc + mset (duplicates ?st) = mset ?adds"
    by (simp_all add: add_inv_def flt)
  have fst_acc: "map fst (drop (length existing) (final_urls ?st)) = acc"
    by (simp add: fin comp_def)
  from ms have len: "length acc + length (duplicates ?st) = length ?adds"
    by (metis size_mset size_union)
  have lenf: "length (final_urls ?st) = length existing + length acc"
    by (simp add: fin)
  have tk: "take (length existing) (final_urls ?st) = existing"
    by (simp add: fin)
  from ne have c1: "\<forall>x \<in> set ?adds. x \<noteq> []" by blast
  from ms have c3: "mset ?adds = mset (map fst (drop (length existing) (final_urls ?st))) + mset (duplicates ?st)"
    by (simp only: fst_acc)
  from len lenf have c4: "length (final_urls ?st) = length existing + length ?adds - length (duplicates ?st)"
    by arith
  from len have c5: "length (duplicates ?st) \<le> length ?adds" by arith
  from c1 tk c3 c4 c5 show ?thesis by blast
qed


theorem addition_accounting_witness:
  "clean_lines cfg_default [CHR ''a'', CHR 0x0A, CHR '' '', CHR 0x0A, CHR ''b'', CHR 0x0A, CHR ''a'']
     = [''a'', ''b'', ''a''] \<and>
   final_urls (add_loop [(''b'', None)]
     (clean_lines cfg_default [CHR ''a'', CHR 0x0A, CHR '' '', CHR 0x0A, CHR ''b'', CHR 0x0A, CHR ''a''])
     ''2025-06-01'') = [(''b'', None), (''a'', Some ''2025-06-01'')] \<and>
   duplicates (add_loop [(''b'', None)]
     (clean_lines cfg_default [CHR ''a'', CHR 0x0A, CHR '' '', CHR 0x0A, CHR ''b'', CHR 0x0A, CHR ''a''])
     ''2025-06-01'') = [''b'', ''a''] \<and>
   length [(''b'', None), (''a'', Some ''2025-06-01'')] = length [(''b'', None :: string option)] + length [''a'', ''b'', ''a''] - length [''b'', ''a'']"
proof -
  have cl: "clean_lines cfg_default [CHR ''a'', CHR 0x0A, CHR '' '', CHR 0x0A, CHR ''b'', CHR 0x0A, CHR ''a'']
     = [''a'', ''b'', ''a'']"
    by (simp add: clean_lines_def eval_normalize cfg_default_def)
  show ?thesis
    using addition_accounting [of cfg_default "[CHR ''a'', CHR 0x0A, CHR '' '', CHR 0x0A, CHR ''b'', CHR 0x0A, CHR ''a'']" "[(''b'', None)]" "''2025-06-01''"]
    by (simp add: cl eval_add)
qed

section \<open>The parser loop\<close>

lemma parse_step_candidate:
  "parse_step cfg ex st u =
     (case candidate cfg u of
        None \<Rightarrow> st
      | Some e \<Rightarrow>
          if fst e \<in> ex then st
          else if dedupe_existing cfg then
            (if fst e \<in> seen st then st
             else st\<lparr>existing_urls := existing_urls st @ [e], seen := insert (fst e) (seen st)\<rparr>)
          else st\<lparr>existing_urls := existing_urls st @ [e]\<rparr>)"
  by (simp add: parse_step_def candidate_def Let_def split: option.splits)

lemma survivors_Nil: "survivors cfg ex [] = []"
  by (simp add: survivors_def)

lemma survivors_Cons:
  "survivors cfg ex (u # us) =
     (case candidate cfg u of
        None \<Rightarrow> survivors cfg ex us
      | Some e \<Rightarrow> if fst e \<in> ex then survivors cfg ex us else e # survivors cfg ex us)"
  by (simp add: survivors_def split: option.splits)

lemma survivors_not_excluded: "e \<in> set (survivors cfg ex us) \<Longrightarrow> fst e \<notin> ex"
  by (simp add: survivors_def)

lemma survivors_candidate:
  "e \<in> set (survivors cfg ex us) \<Longrightarrow> \<exists>u \<in> set us. candidate cfg u = Some e"
  by (auto simp: survivors_def map_filter_def)

lemma foldl_parse_dedupe:
  assumes "dedupe_existing cfg"
  shows "existing_urls (foldl (parse_step cfg ex) st us) =
           existing_urls st @ keep_first (filter (\<lambda>e. fst e \<notin> seen st) (survivors cfg ex us))
         \<and> seen (foldl (parse_step cfg ex) st us) = seen st \<union> fst ` set (survivors cfg ex us)"
proof (induction us arbitrary: st)
  case Nil
  show ?case by (simp add: survivors_Nil)
next
  case (Cons u us)
  show ?case
  proof (cases "candidate cfg u")
    case None
    then show ?thesis using Cons.IH [of st]
      by (simp add: parse_step_candidate survivors_Cons)
  next
    case (Some e)
    show ?thesis
    proof (cases "fst e \<in> ex")
      case True
      with Some show ?thesis using Cons.IH [of st]
        by (simp add: parse_step_candidate survivors_Cons)
    next
      case kept: False
      show ?thesis
      proof (cases "fst e \<in> seen st")
        case True
        with Some kept assms show ?thesis using Cons.IH [of st]
          by (auto simp add: parse_step_candidate survivors_Cons)
      next
        case False
        let ?st' = "st\<lparr>existing_urls := existing_urls st @ [e], seen := insert (fst e) (seen st)\<rparr>"
        from Some kept False assms have step: "parse_step cfg ex st u = ?st'"
          by (simp add: parse_step_candidate)
        from Some kept have sv: "survivors cfg ex (u # us) = e # survivors cfg ex us"
          by (simp add: survivors_Cons)
        show ?thesis using Cons.IH [of ?st'] False
          by (simp add: step sv conj_commute)
      qed
    qed
  qed
qed

lemma foldl_parse_plain:
  assumes "\<not> dedupe_existing cfg"
  shows "existing_urls (foldl (parse_step cfg ex) st us) = existing_urls st @ survivors cfg ex us
         \<and> seen (foldl (parse_step cfg ex) st us) = seen st"
proof (induction us arbitrary: st)
  case Nil
  show ?case by (simp add: survivors_Nil)
next
  case (Cons u us)
  show ?case using assms Cons.IH [of "parse_step cfg ex st u"]
    by (auto simp add: parse_step_candidate survivors_Cons split: option.splits)
qed

lemma parse_loop_dedupe:
  "dedupe_existing cfg \<Longrightarrow>
     existing_urls (parse_loop cfg ex us) = keep_first (survivors cfg ex us) \<and>
     seen (parse_loop cfg ex us) = fst ` set (survivors cfg ex us)"
  using foldl_parse_dedupe [of cfg ex "\<lparr>existing_urls = [], seen = {}\<rparr>" us]
  by (simp add: parse_loop_def)

lemma parse_loop_plain:
  "\<not> dedupe_existing cfg \<Longrightarrow>
     existing_urls (parse_loop cfg ex us) = survivors cfg ex us \<and> seen (parse_loop cfg ex us) = {}"
  using foldl_parse_plain [of cfg ex "\<lparr>existing_urls = [], seen = {}\<rparr>" us]
  by (simp add: parse_loop_def)

lemma set_keep_first: "set (keep_first es) \<subseteq> set es"
  by (induction es rule: keep_first.induct) auto

lemma distinct_keep_first: "distinct (map fst (keep_first es))"
proof (induction es rule: keep_first.induct)
  case 1
  show ?case by simp
next
  case (2 e es)
  have "fst e \<notin> fst ` set (keep_first (filter (\<lambda>e'. fst e' \<noteq> fst e) es))"
    using set_keep_first [of "filter (\<lambda>e'. fst e' \<noteq> fst e) es"] by auto
  with 2 show ?case by simp
qed

lemma existing_subset_survivors:
  "set (existing_urls (parse_loop cfg ex us)) \<subseteq> set (survivors cfg ex us)"
  using parse_loop_dedupe [of cfg ex us] parse_loop_plain [of cfg ex us] set_keep_first
  by (cases "dedupe_existing cfg") auto

lemma seen_subset_survivors:
  "seen (parse_loop cfg ex us) \<subseteq> fst ` set (survivors cfg ex us)"
  using parse_loop_dedupe [of cfg ex us] parse_loop_plain [of cfg ex us]
  by (cases "dedupe_existing cfg") auto

lemma add_loop_duplicates_subset: "set (duplicates (add_loop existing xs d)) \<subseteq> set xs"
proof -
  obtain acc where "add_inv existing d xs (add_loop existing xs d) acc"
    using add_loop_inv by blast
  then have "mset acc + mset (duplicates (add_loop existing xs d)) = mset (filter (\<lambda>x. x \<noteq> []) xs)"
    by (simp add: add_inv_def)
  then have "set_mset (mset (duplicates (add_loop existing xs d)))
               \<subseteq> set_mset (mset (filter (\<lambda>x. x \<noteq> []) xs))"
    by (metis mset_subset_eq_add_right set_mset_mono)
  then show ?thesis by auto
qed

text \<open>
  C6. In the parser the exclusion comes before the deduplication: an entry whose
  normalised location is excluded is dropped and its location never enters \<open>seen\<close>;
  with \<open>dedupe_existing\<close> on, the entries kept are the first occurrence, in document
  order, of each location among the survivors, with that occurrence's \<open>lastmod\<close>; and
  the later occurrences are not reported: the duplicates hold additions only.
\<close>

theorem parser_excludes_then_dedupes:
  "seen (parse_loop cfg ex us) \<inter> ex = {} \<and>
   fst ` set (existing_urls (parse_loop cfg ex us)) \<inter> ex = {} \<and>
   (dedupe_existing cfg \<longrightarrow>
      existing_urls (parse_loop cfg ex us) = keep_first (survivors cfg ex us) \<and>
      seen (parse_loop cfg ex us) = fst ` set (survivors cfg ex us)) \<and>
   set (duplicates (pipeline cfg inp root)) \<subseteq> set (clean_lines cfg (add_input inp))"
proof -
  have a: "seen (parse_loop cfg ex us) \<inter> ex = {}"
    using seen_subset_survivors [of cfg ex us] survivors_not_excluded [of _ cfg ex us] by auto
  have b: "fst ` set (existing_urls (parse_loop cfg ex us)) \<inter> ex = {}"
    using existing_subset_survivors [of cfg ex us] survivors_not_excluded [of _ cfg ex us] by auto
  have c: "set (duplicates (pipeline cfg inp root)) \<subseteq> set (clean_lines cfg (add_input inp))"
    by (simp add: pipeline_def Let_def add_loop_duplicates_subset)
  from a b c parse_loop_dedupe [of cfg ex us] show ?thesis by blast
qed

theorem parser_excludes_then_dedupes_witness:
  "dedupe_existing cfg_default \<and>
   survivors cfg_default {''b''}
     [mk_url ''x'' (Some ''2024-01-01''), mk_url ''b'' None, mk_url ''x'' (Some ''2024-02-02'')]
     = [(''x'', Some ''2024-01-01''), (''x'', Some ''2024-02-02'')] \<and>
   existing_urls (parse_loop cfg_default {''b''}
     [mk_url ''x'' (Some ''2024-01-01''), mk_url ''b'' None, mk_url ''x'' (Some ''2024-02-02'')])
     = [(''x'', Some ''2024-01-01'')] \<and>
   seen (parse_loop cfg_default {''b''}
     [mk_url ''x'' (Some ''2024-01-01''), mk_url ''b'' None, mk_url ''x'' (Some ''2024-02-02'')])
     = {''x''}"
proof -
  have sv: "survivors cfg_default {''b''}
     [mk_url ''x'' (Some ''2024-01-01''), mk_url ''b'' None, mk_url ''x'' (Some ''2024-02-02'')]
     = [(''x'', Some ''2024-01-01''), (''x'', Some ''2024-02-02'')]"
    by (simp add: survivors_def candidate_def find_child_def lastmod_of_def
        mk_url_def eval_normalize cfg_default_def)
  have d: "dedupe_existing cfg_default" by (simp add: cfg_default_def)
  show ?thesis
    using parser_excludes_then_dedupes [of cfg_default "{''b''}"
      "[mk_url ''x'' (Some ''2024-01-01''), mk_url ''b'' None, mk_url ''x'' (Some ''2024-02-02'')]"]
    by (simp add: sv d)
qed

section \<open>The final sequence\<close>

lemma pipeline_add_inv:
  "\<exists>acc. add_inv
     (existing_urls (parse_loop cfg (set (clean_lines cfg (exclude_input inp)))
        (findall (qname ''url'') root)))
     (add_lastmod_str inp) (clean_lines cfg (add_input inp)) (pipeline cfg inp root) acc"
  by (simp add: pipeline_def Let_def add_loop_inv)

lemma distinct_final_iff:
  assumes "add_inv existing d xs st acc"
  shows "distinct (map fst (final_urls st)) \<longleftrightarrow> distinct (map fst existing)"
proof -
  from assms have "final_urls st = existing @ map (\<lambda>l. (l, Some d)) acc"
    and d: "distinct acc" and disj: "set acc \<inter> set (map fst existing) = {}"
    unfolding add_inv_def by blast+
  then have fin: "map fst (final_urls st) = map fst existing @ acc"
    by (simp add: comp_def)
  from d disj show ?thesis by (auto simp: fin)
qed

text \<open>
  C1, as the code has it. With \<open>dedupe_existing\<close> on, the locations of the final
  sequence are pairwise distinct. With it off, the entries of the uploaded sitemap are
  kept as they come, so the final locations are pairwise distinct exactly when those of
  the surviving existing entries are: the additions never repeat a location, neither
  one of the existing entries nor one of an earlier addition.
\<close>

theorem final_locations_distinct:
  "(dedupe_existing cfg \<longrightarrow> distinct (map fst (final_urls (pipeline cfg inp root)))) \<and>
   (distinct (map fst (final_urls (pipeline cfg inp root))) \<longleftrightarrow>
    distinct (map fst (existing_urls (parse_loop cfg (set (clean_lines cfg (exclude_input inp)))
      (findall (qname ''url'') root)))))"
proof -
  let ?ex = "set (clean_lines cfg (exclude_input inp))"
  let ?us = "findall (qname ''url'') root"
  obtain acc where inv: "add_inv (existing_urls (parse_loop cfg ?ex ?us)) (add_lastmod_str inp)
      (clean_lines cfg (add_input inp)) (pipeline cfg inp root) acc"
    using pipeline_add_inv by blast
  have iff: "distinct (map fst (final_urls (pipeline cfg inp root))) \<longleftrightarrow>
             distinct (map fst (existing_urls (parse_loop cfg ?ex ?us)))"
    by (rule distinct_final_iff [OF inv])
  have "distinct (map fst (existing_urls (parse_loop cfg ?ex ?us)))" if "dedupe_existing cfg"
    using parse_loop_dedupe [OF that, of ?ex ?us] distinct_keep_first by simp
  with iff show ?thesis by blast
qed

theorem final_locations_distinct_witness:
  "dedupe_existing cfg_default \<and>
   final_urls (pipeline cfg_default (upload doc_mixed [] ''x'' ''2025-06-01'') doc_mixed)
     = [(''x'', Some ''2024-01-01''), (''y'', None)] \<and>
   distinct (map fst
     (final_urls (pipeline cfg_default (upload doc_mixed [] ''x'' ''2025-06-01'') doc_mixed)))"
proof -
  have d: "dedupe_existing cfg_default" by (simp add: cfg_default_def)
  have f: "final_urls (pipeline cfg_default (upload doc_mixed [] ''x'' ''2025-06-01'') doc_mixed)
     = [(''x'', Some ''2024-01-01''), (''y'', None)]"
    by (simp add: eval_run eval_parse eval_normalize eval_add cfg_default_def doc_mixed_def)
  show ?thesis
    using final_locations_distinct
      [of cfg_default "upload doc_mixed [] ''x'' ''2025-06-01''" doc_mixed]
    by (simp add: d f)
qed

text \<open>
  The claim as it is written also covers \<open>dedupe_existing\<close> off; there the same URL
  twice in the uploaded sitemap is twice in the final sequence.
\<close>

theorem final_locations_repeat_without_dedupe:
  "generate cfg_keep_dups (upload doc_twice [] [] ''2025-06-01'')
     = Generated [(''https://ex.com/x'', None), (''https://ex.com/x'', None)] [] \<and>
   \<not> distinct (map fst
     (final_urls (pipeline cfg_keep_dups (upload doc_twice [] [] ''2025-06-01'') doc_twice)))"
  by (simp add: eval_run eval_parse eval_normalize eval_add cfg_keep_dups_def doc_twice_def)

section \<open>Excluded URLs\<close>

text \<open>
  C3, as the code has it. A URL whose normalised form is in the exclusion set is not
  among the existing entries that reach the final sequence. It is in the final sequence
  exactly when it is also in the addition list, and then only as an addition of this
  run, with the configured date: the additions are not checked against the exclusion
  set.
\<close>

theorem excluded_url_only_as_addition:
  assumes "l \<in> set (clean_lines cfg (exclude_input inp))"
  shows "l \<notin> fst ` set (existing_urls (parse_loop cfg (set (clean_lines cfg (exclude_input inp)))
           (findall (qname ''url'') root))) \<and>
         (l \<in> fst ` set (final_urls (pipeline cfg inp root)) \<longleftrightarrow>
          l \<in> set (clean_lines cfg (add_input inp))) \<and>
         (\<forall>e \<in> set (final_urls (pipeline cfg inp root)).
            fst e = l \<longrightarrow> snd e = Some (add_lastmod_str inp))"
proof -
  let ?ex = "set (clean_lines cfg (exclude_input inp))"
  let ?existing = "existing_urls (parse_loop cfg ?ex (findall (qname ''url'') root))"
  have notex: "l \<notin> fst ` set ?existing"
    using existing_subset_survivors [of cfg ?ex "findall (qname ''url'') root"]
      survivors_not_excluded [of _ cfg ?ex "findall (qname ''url'') root"] assms
    by auto
  from assms clean_lines_nonempty [of cfg "exclude_input inp"] have ne: "l \<noteq> []"
    by auto
  obtain acc where inv: "add_inv ?existing (add_lastmod_str inp)
      (clean_lines cfg (add_input inp)) (pipeline cfg inp root) acc"
    using pipeline_add_inv by blast
  then have fin: "final_urls (pipeline cfg inp root)
        = ?existing @ map (\<lambda>l. (l, Some (add_lastmod_str inp))) acc"
    and acc: "set acc = set (clean_lines cfg (add_input inp)) - set (map fst ?existing) - {[]}"
    unfolding add_inv_def by blast+
  from notex ne acc have mem: "l \<in> set acc \<longleftrightarrow> l \<in> set (clean_lines cfg (add_input inp))"
    by auto
  have set_fin: "set (final_urls (pipeline cfg inp root))
        = set ?existing \<union> (\<lambda>l. (l, Some (add_lastmod_str inp))) ` set acc"
    by (simp add: fin)
  have b: "l \<in> fst ` set (final_urls (pipeline cfg inp root)) \<longleftrightarrow>
           l \<in> set (clean_lines cfg (add_input inp))"
    using notex mem by (auto simp: set_fin image_Un image_image)
  have c: "\<forall>e \<in> set (final_urls (pipeline cfg inp root)).
            fst e = l \<longrightarrow> snd e = Some (add_lastmod_str inp)"
    using notex by (auto simp: set_fin)
  from notex b c show ?thesis by blast
qed

theorem excluded_url_only_as_addition_witness:
  "''https://ex.com/a'' \<in> set (clean_lines cfg_default ''https://ex.com/a'') \<and>
   existing_urls (parse_loop cfg_default (set (clean_lines cfg_default ''https://ex.com/a''))
     (findall (qname ''url'') doc_a)) = [] \<and>
   final_urls (pipeline cfg_default
     (upload doc_a ''https://ex.com/a'' ''https://ex.com/a'' ''2025-06-01'') doc_a)
     = [(''https://ex.com/a'', Some ''2025-06-01'')] \<and>
   final_urls (pipeline cfg_default (upload doc_a ''https://ex.com/a'' [] ''2025-06-01'') doc_a) = []"
proof -
  have cl: "clean_lines cfg_default ''https://ex.com/a'' = [''https://ex.com/a'']"
    by (simp add: clean_lines_def eval_normalize cfg_default_def)
  have ex: "existing_urls (parse_loop cfg_default {''https://ex.com/a''}
     (findall (qname ''url'') doc_a)) = []"
    by (simp add: eval_parse eval_normalize cfg_default_def doc_a_def)
  have cl0: "clean_lines cfg_default [] = []"
    by (simp add: clean_lines_def)
  have f1: "final_urls (pipeline cfg_default
     (upload doc_a ''https://ex.com/a'' ''https://ex.com/a'' ''2025-06-01'') doc_a)
     = [(''https://ex.com/a'', Some ''2025-06-01'')]"
    by (simp add: pipeline_def Let_def upload_def cl ex eval_add)
  have f2: "final_urls (pipeline cfg_default
     (upload doc_a ''https://ex.com/a'' [] ''2025-06-01'') doc_a) = []"
    by (simp add: pipeline_def Let_def upload_def cl cl0 ex eval_add)
  show ?thesis
    using excluded_url_only_as_addition [of "''https://ex.com/a''" cfg_default
      "upload doc_a ''https://ex.com/a'' ''https://ex.com/a'' ''2025-06-01''" doc_a]
    by (simp add: cl ex f1 f2)
qed

text \<open>
  The claim as it is written: an excluded URL of the existing sitemap never appears in
  the final output, also when it is in the addition list. Excluded and added, it is in
  the final output.
\<close>

theorem excluded_url_added_back:
  "''https://ex.com/a'' \<in> set (clean_lines cfg_default ''https://ex.com/a'') \<and>
   generate cfg_default (upload doc_a ''https://ex.com/a'' ''https://ex.com/a'' ''2025-06-01'')
     = Generated [(''https://ex.com/a'', Some ''2025-06-01'')] []"
proof -
  have cl: "clean_lines cfg_default ''https://ex.com/a'' = [''https://ex.com/a'']"
    by (simp add: clean_lines_def eval_normalize cfg_default_def)
  have ex: "existing_urls (parse_loop cfg_default {''https://ex.com/a''}
     (findall (qname ''url'') doc_a)) = []"
    by (simp add: eval_parse eval_normalize cfg_default_def doc_a_def)
  show ?thesis
    by (simp add: generate_def pipeline_def Let_def upload_def cl ex eval_add)
qed

section \<open>The lastmod of the entries\<close>

lemma lastmod_of_cases:
  "lastmod_of u =
     (case find_child (qname ''lastmod'') u of
        None \<Rightarrow> None
      | Some m \<Rightarrow> (case etext m of None \<Rightarrow> None | Some t \<Rightarrow> if t = [] then None else Some (strip t)))"
  by (simp add: lastmod_of_def split: option.splits)

lemma candidate_lastmod: "candidate cfg u = Some e \<Longrightarrow> snd e = lastmod_of u"
  by (auto simp: candidate_def split: option.splits if_splits)

text \<open>
  C7, as the code has it. The final sequence is the surviving existing entries followed
  by the additions of this run, each with the single configured date. Every surviving
  existing entry is the candidate of a \<open>url\<close> element of the document, and its
  \<open>lastmod\<close> is the text of that element's \<open>lastmod\<close> child with the white space at
  both ends removed, when the child is there with a non-empty text, and absent
  otherwise.
\<close>

theorem lastmod_round_trip:
  "(\<exists>added. final_urls (pipeline cfg inp root) =
      existing_urls (parse_loop cfg (set (clean_lines cfg (exclude_input inp)))
        (findall (qname ''url'') root))
      @ map (\<lambda>l. (l, Some (add_lastmod_str inp))) added) \<and>
   (\<forall>e \<in> set (existing_urls (parse_loop cfg (set (clean_lines cfg (exclude_input inp)))
        (findall (qname ''url'') root))).
      \<exists>u \<in> set (findall (qname ''url'') root).
        candidate cfg u = Some e \<and>
        snd e =
          (case find_child (qname ''lastmod'') u of
             None \<Rightarrow> None
           | Some m \<Rightarrow>
               (case etext m of None \<Rightarrow> None
                | Some t \<Rightarrow> if t = [] then None else Some (strip t))))"
proof -
  let ?ex = "set (clean_lines cfg (exclude_input inp))"
  let ?us = "findall (qname ''url'') root"
  let ?existing = "existing_urls (parse_loop cfg ?ex ?us)"
  obtain acc where "add_inv ?existing (add_lastmod_str inp)
      (clean_lines cfg (add_input inp)) (pipeline cfg inp root) acc"
    using pipeline_add_inv by blast
  then have "final_urls (pipeline cfg inp root)
        = ?existing @ map (\<lambda>l. (l, Some (add_lastmod_str inp))) acc"
    unfolding add_inv_def by blast
  then have a: "\<exists>added. final_urls (pipeline cfg inp root)
        = ?existing @ map (\<lambda>l. (l, Some (add_lastmod_str inp))) added" ..
  have b: "\<exists>u \<in> set ?us. candidate cfg u = Some e \<and>
        snd e = (case find_child (qname ''lastmod'') u of
             None \<Rightarrow> None
           | Some m \<Rightarrow>
               (case etext m of None \<Rightarrow> None
                | Some t \<Rightarrow> if t = [] then None else Some (strip t)))"
    if "e \<in> set ?existing" for e
  proof -
    from that existing_subset_survivors [of cfg ?ex ?us]
    have "e \<in> set (survivors cfg ?ex ?us)" by blast
    then obtain u where u: "u \<in> set ?us" "candidate cfg u = Some e"
      using survivors_candidate by blast
    from u(2) have "snd e = lastmod_of u" by (rule candidate_lastmod)
    with u show ?thesis by (auto simp: lastmod_of_cases)
  qed
  from a b show ?thesis by blast
qed

theorem lastmod_round_trip_witness:
  "final_urls (pipeline cfg_default (upload doc_padded [] ''https://ex.com/c'' ''2025-06-01'') doc_padded)
     = [(''https://ex.com/a'', Some ''2024-01-01''), (''https://ex.com/c'', Some ''2025-06-01'')] \<and>
   existing_urls (parse_loop cfg_default {} (findall (qname ''url'') doc_padded))
     = [(''https://ex.com/a'', Some ''2024-01-01'')] \<and>
   candidate cfg_default (mk_url ''https://ex.com/a'' (Some '' 2024-01-01 ''))
     = Some (''https://ex.com/a'', Some ''2024-01-01'')"
proof -
  have cl0: "clean_lines cfg_default [] = []"
    by (simp add: clean_lines_def)
  have cl: "clean_lines cfg_default ''https://ex.com/c'' = [''https://ex.com/c'']"
    by (simp add: clean_lines_def eval_normalize cfg_default_def)
  have ex: "existing_urls (parse_loop cfg_default {} (findall (qname ''url'') doc_padded))
     = [(''https://ex.com/a'', Some ''2024-01-01'')]"
    by (simp add: eval_parse eval_normalize cfg_default_def doc_padded_def)
  have f: "final_urls (pipeline cfg_default
      (upload doc_padded [] ''https://ex.com/c'' ''2025-06-01'') doc_padded)
     = [(''https://ex.com/a'', Some ''2024-01-01''), (''https://ex.com/c'', Some ''2025-06-01'')]"
    by (simp add: pipeline_def Let_def upload_def cl cl0 ex eval_add)
  have c: "candidate cfg_default (mk_url ''https://ex.com/a'' (Some '' 2024-01-01 ''))
     = Some (''https://ex.com/a'', Some ''2024-01-01'')"
    by (simp add: candidate_def find_child_def lastmod_of_def mk_url_def eval_normalize
        cfg_default_def)
  show ?thesis
    using lastmod_round_trip
      [of cfg_default "upload doc_padded [] ''https://ex.com/c'' ''2025-06-01''" doc_padded]
    by (simp add: f ex c)
qed

text \<open>
  The claim as it is written: the existing entry keeps its \<open>lastmod\<close> text exactly as
  it is in the document. A text with white space around the date is kept without it.
\<close>

theorem lastmod_text_is_trimmed:
  "etext (Elem (qname ''lastmod'') (Some '' 2024-01-01 '') []) = Some '' 2024-01-01 '' \<and>
   lastmod_of (mk_url ''https://ex.com/a'' (Some '' 2024-01-01 '')) = Some ''2024-01-01'' \<and>
   generate cfg_default (upload doc_padded [] [] ''2025-06-01'')
     = Generated [(''https://ex.com/a'', Some ''2024-01-01'')] [] \<and>
   Some ''2024-01-01'' \<noteq> Some '' 2024-01-01 ''"
  by (simp add: eval_run eval_parse eval_normalize eval_add cfg_default_def doc_padded_def)

section \<open>Normalising twice\<close>

lemma of_char_less_256: "(of_char c :: nat) < 256"
proof -
  have "(of_char c :: nat) mod 256 = of_char c" by (rule of_char_mod_256)
  then show ?thesis by (metis mod_less_divisor zero_less_numeral)
qed








lemma length_strip_le: "length (strip s) \<le> length s"
proof -
  have "length (strip s) \<le> length (dropWhile is_space s)"
    by (simp add: strip_def length_dropWhile_le del: length_rev)
      (metis length_dropWhile_le length_rev)
  also have "\<dots> \<le> length s" by (rule length_dropWhile_le)
  finally show ?thesis .
qed









section \<open>Missing and malformed uploads\<close>




end
